theory Spec2Isabelle
  imports Main
begin

section \<open>Python strings\<close>

text \<open>
  A message is a Python \<^verbatim>\<open>str\<close>.  It is modelled as a \<^typ>\<open>string\<close> whose characters
  are the code points below 256, one \<^typ>\<open>char\<close> each.  On that range the three character
  classes used by \<^verbatim>\<open>src/format_message.py\<close> are the following ones: \<^verbatim>\<open>str.isspace\<close> and
  the regular-expression class \<^verbatim>\<open>\s\<close> coincide, \<^verbatim>\<open>\w\<close> is alphanumeric-or-underscore,
  \<^verbatim>\<open>\d\<close> is the ten ASCII digits, and \<^verbatim>\<open>str.lower\<close> maps one character to one character.
\<close>

definition isspace :: "char \<Rightarrow> bool" where
  "isspace c =
     (let n = (of_char c :: nat)
      in (9 \<le> n \<and> n \<le> 13) \<or> (28 \<le> n \<and> n \<le> 32) \<or> n = 133 \<or> n = 160)"

definition isword :: "char \<Rightarrow> bool" where
  "isword c =
     (let n = (of_char c :: nat)
      in (48 \<le> n \<and> n \<le> 57) \<or> (65 \<le> n \<and> n \<le> 90) \<or> n = 95 \<or> (97 \<le> n \<and> n \<le> 122)
         \<or> n = 170 \<or> n = 178 \<or> n = 179 \<or> n = 181 \<or> n = 185 \<or> n = 186
         \<or> (188 \<le> n \<and> n \<le> 190) \<or> (192 \<le> n \<and> n \<le> 214) \<or> (216 \<le> n \<and> n \<le> 246)
         \<or> 248 \<le> n)"

definition isdigit :: "char \<Rightarrow> bool" where
  "isdigit c = (let n = (of_char c :: nat) in 48 \<le> n \<and> n \<le> 57)"

definition lower_char :: "char \<Rightarrow> char" where
  "lower_char c =
     (let n = (of_char c :: nat)
      in if (65 \<le> n \<and> n \<le> 90) \<or> (192 \<le> n \<and> n \<le> 214) \<or> (216 \<le> n \<and> n \<le> 222)
         then char_of (n + 32) else c)"

definition lower :: "string \<Rightarrow> string" where
  "lower s = map lower_char s"

definition lstrip :: "string \<Rightarrow> string" where
  "lstrip s = dropWhile isspace s"

definition rstrip :: "string \<Rightarrow> string" where
  "rstrip s = rev (dropWhile isspace (rev s))"

definition strip :: "string \<Rightarrow> string" where
  "strip s = rstrip (lstrip s)"

text \<open>\<^verbatim>\<open>s.split(sep)\<close> for a one-character separator: never the empty list.\<close>

fun split :: "char \<Rightarrow> string \<Rightarrow> string list" where
  "split sep [] = [[]]"
| "split sep (x # xs) =
     (if x = sep then [] # split sep xs
      else (let r = split sep xs in (x # hd r) # tl r))"

definition startswith :: "string \<Rightarrow> string \<Rightarrow> bool" where
  "startswith s p = (take (length p) s = p)"

abbreviation NL :: char where
  "NL \<equiv> CHR 0x0A"

section \<open>Regular expressions, as \<^verbatim>\<open>re\<close> matches them\<close>

text \<open>
  The patterns of the module use literals, character classes, greedy and lazy repetition,
  an optional group, alternation, capture groups and \<^verbatim>\<open>$\<close>.  \<^verbatim>\<open>re\<close> is a backtracking
  matcher: at a start position it explores the alternatives in a fixed priority order
  (the greedy ones longest first, the lazy ones shortest first, the left branch of
  \<^verbatim>\<open>|\<close> first) and returns the first complete match.  \<open>run\<close> lists all complete
  matches from a position in that order, each as the text left over and the groups
  captured; the match \<^verbatim>\<open>re\<close> returns is the head of the list.
\<close>

datatype atom = Lit char | Dot | Space | Word | Digit | Range char char

datatype rx =
    Eps
  | Atom atom
  | Set "atom list"
  | Cat rx rx
  | Alt rx rx
  | Opt rx
  | Star rx
  | LazyStar rx
  | Group nat rx
  | Dollar

type_synonym caps = "(nat \<times> string) list"

text \<open>The flag \<^verbatim>\<open>re.DOTALL\<close> decides whether \<^verbatim>\<open>.\<close> matches a newline.\<close>

fun atom_ok :: "bool \<Rightarrow> atom \<Rightarrow> char \<Rightarrow> bool" where
  "atom_ok dotall (Lit a) c = (c = a)"
| "atom_ok dotall Dot c = (dotall \<or> c \<noteq> NL)"
| "atom_ok dotall Space c = isspace c"
| "atom_ok dotall Word c = isword c"
| "atom_ok dotall Digit c = isdigit c"
| "atom_ok dotall (Range a b) c = ((of_char a :: nat) \<le> of_char c \<and> (of_char c :: nat) \<le> of_char b)"

definition consumed :: "string \<Rightarrow> string \<Rightarrow> string" where
  "consumed s t = take (length s - length t) s"

text \<open>
  A repetition whose body matched without consuming a character is not repeated
  again; no repetition in the patterns below has a body that can match the empty string.
\<close>

function run :: "bool \<Rightarrow> rx \<Rightarrow> string \<Rightarrow> caps \<Rightarrow> (string \<times> caps) list" where
  "run d Eps s c = [(s, c)]"
| "run d (Atom a) s c =
     (case s of [] \<Rightarrow> [] | x # xs \<Rightarrow> if atom_ok d a x then [(xs, c)] else [])"
| "run d (Set as) s c =
     (case s of [] \<Rightarrow> [] | x # xs \<Rightarrow> if \<exists>a \<in> set as. atom_ok d a x then [(xs, c)] else [])"
| "run d (Cat r1 r2) s c = concat (map (\<lambda>(t, c'). run d r2 t c') (run d r1 s c))"
| "run d (Alt r1 r2) s c = run d r1 s c @ run d r2 s c"
| "run d (Opt r) s c = run d r s c @ [(s, c)]"
| "run d (Star r) s c =
     concat (map (\<lambda>(t, c'). if length t < length s then run d (Star r) t c' else [])
                 (run d r s c))
     @ [(s, c)]"
| "run d (LazyStar r) s c =
     (s, c) #
     concat (map (\<lambda>(t, c'). if length t < length s then run d (LazyStar r) t c' else [])
                 (run d r s c))"
| "run d (Group i r) s c = map (\<lambda>(t, c'). (t, (i, consumed s t) # c')) (run d r s c)"
| "run d Dollar s c = (if s = [] \<or> s = [NL] then [(s, c)] else [])"
  by pat_completeness auto
termination
  by (relation "measures [\<lambda>(d, r, s, c). size r, \<lambda>(d, r, s, c). length s]") auto

declare run.simps(7,8) [simp del]

definition plus :: "rx \<Rightarrow> rx" where
  "plus r = Cat r (Star r)"

fun seq :: "rx list \<Rightarrow> rx" where
  "seq [] = Eps"
| "seq [r] = r"
| "seq (r # rs) = Cat r (seq rs)"

fun alts :: "rx list \<Rightarrow> rx" where
  "alts [] = Set []"
| "alts [r] = r"
| "alts (r # rs) = Alt r (alts rs)"

definition match_here :: "bool \<Rightarrow> rx \<Rightarrow> string \<Rightarrow> (string \<times> caps) option" where
  "match_here d r s = (case run d r s [] of [] \<Rightarrow> None | m # _ \<Rightarrow> Some m)"

text \<open>\<^verbatim>\<open>m.group(i)\<close>; a group that took no part in the match is \<^verbatim>\<open>None\<close>.\<close>

definition group :: "caps \<Rightarrow> nat \<Rightarrow> string option" where
  "group c i = map_of c i"

text \<open>
  The scan shared by \<^verbatim>\<open>re.findall\<close>, \<^verbatim>\<open>re.split\<close> and \<^verbatim>\<open>re.sub\<close>: the leftmost match,
  then the leftmost match after its end, and so on.  The result lists, for each match,
  the text skipped before it, the matched text and its groups, and then the text after
  the last match.  An empty match is recorded and the scan moves one character on.
\<close>

function finditer :: "bool \<Rightarrow> rx \<Rightarrow> string \<Rightarrow> string \<Rightarrow> (string \<times> string \<times> caps) list \<times> string" where
  "finditer d r gap s =
     (case match_here d r s of
        Some (t, c) \<Rightarrow>
          (if length t < length s then
             (let (ms, rest) = finditer d r [] t in ((gap, consumed s t, c) # ms, rest))
           else
             (case s of
                [] \<Rightarrow> ([(gap, [], c)], [])
              | x # xs \<Rightarrow> (let (ms, rest) = finditer d r [x] xs in ((gap, [], c) # ms, rest))))
      | None \<Rightarrow>
          (case s of
             [] \<Rightarrow> ([], gap)
           | x # xs \<Rightarrow> finditer d r (gap @ [x]) xs))"
  by pat_completeness auto
termination
  by (relation "measure (\<lambda>(d, r, gap, s). length s)") auto

declare finditer.simps [simp del]

definition or_empty :: "string option \<Rightarrow> string" where
  "or_empty g = (case g of None \<Rightarrow> [] | Some x \<Rightarrow> x)"

text \<open>\<^verbatim>\<open>re.findall\<close> for a pattern with two groups: a list of pairs, \<^verbatim>\<open>''\<close> for an absent group.\<close>

definition findall2 :: "bool \<Rightarrow> rx \<Rightarrow> string \<Rightarrow> (string \<times> string) list" where
  "findall2 d r s =
     map (\<lambda>(gap, m, c). (or_empty (group c 1), or_empty (group c 2))) (fst (finditer d r [] s))"

text \<open>\<^verbatim>\<open>re.split\<close> for a pattern with one group: text, group, text, ..., text.\<close>

fun interleave :: "(string \<times> string \<times> caps) list \<Rightarrow> string \<Rightarrow> string list" where
  "interleave [] rest = [rest]"
| "interleave ((gap, m, c) # ms) rest = gap # or_empty (group c 1) # interleave ms rest"

definition re_split :: "bool \<Rightarrow> rx \<Rightarrow> string \<Rightarrow> string list" where
  "re_split d r s = (let (ms, rest) = finditer d r [] s in interleave ms rest)"

text \<open>\<^verbatim>\<open>re.sub(pattern, "", s)\<close>: what is left when every match is deleted.\<close>

definition re_sub_empty :: "bool \<Rightarrow> rx \<Rightarrow> string \<Rightarrow> string" where
  "re_sub_empty d r s =
     (let (ms, rest) = finditer d r [] s in concat (map (\<lambda>(gap, m, c). gap) ms) @ rest)"

section \<open>The patterns of \<^verbatim>\<open>format_message\<close>\<close>

abbreviation BT :: rx where
  "BT \<equiv> Atom (Lit CHR 0x60)"

abbreviation PIPE :: rx where
  "PIPE \<equiv> Atom (Lit CHR ''|'')"

text \<open>\<^verbatim>\<open>```(\w+)?\n(.*?)```\<close>, used by \<^verbatim>\<open>re.findall\<close> with \<^verbatim>\<open>re.DOTALL\<close>.\<close>

definition code_pattern :: rx where
  "code_pattern =
     seq [BT, BT, BT, Opt (Group 1 (plus (Atom Word))), Atom (Lit NL),
          Group 2 (LazyStar (Atom Dot)), BT, BT, BT]"

text \<open>\<^verbatim>\<open>```(?:\w+)?\n(.*?)```\<close>, used by \<^verbatim>\<open>re.split\<close> with \<^verbatim>\<open>re.DOTALL\<close>.\<close>

definition split_pattern :: rx where
  "split_pattern =
     seq [BT, BT, BT, Opt (plus (Atom Word)), Atom (Lit NL),
          Group 1 (LazyStar (Atom Dot)), BT, BT, BT]"

text \<open>\<^verbatim>\<open>\|\s*(.*?)\s*\|(?:\n\|[-\s|]+\|)?\n((?:\|.*\|(?:\n|$))*)\<close>\<close>

definition df_pattern :: rx where
  "df_pattern =
     seq [PIPE, Star (Atom Space), Group 1 (LazyStar (Atom Dot)), Star (Atom Space), PIPE,
          Opt (seq [Atom (Lit NL), PIPE, plus (Set [Lit CHR ''-'', Space, Lit CHR ''|'']), PIPE]),
          Atom (Lit NL),
          Group 2 (Star (seq [PIPE, Star (Atom Dot), PIPE, Alt (Atom (Lit NL)) Dollar]))]"

section \<open>\<^verbatim>\<open>format_message\<close>\<close>

text \<open>
  \<^verbatim>\<open>pd.DataFrame(data, columns=headers)\<close>: the column names and the rows.  The constructor
  is only reached with rows that have as many cells as there are columns.
\<close>

record TableBlock =
  headers :: "string list"
  rows :: "string list list"

text \<open>\<^verbatim>\<open>[h.strip() for h in line.split("|") if h.strip()]\<close>\<close>

definition cells :: "string \<Rightarrow> string list" where
  "cells line = map strip (filter (\<lambda>h. strip h \<noteq> []) (split CHR ''|'' line))"

text \<open>The loop over \<^verbatim>\<open>enumerate(rows.strip().split("\n"))\<close>, appending to \<^verbatim>\<open>data\<close>.\<close>

fun row_loop :: "string list \<Rightarrow> nat \<Rightarrow> string list \<Rightarrow> string list list \<Rightarrow> string list list" where
  "row_loop hs idx [] data = data"
| "row_loop hs idx (r # rs) data =
     (let row_values = cells r in
      if idx = 0 \<and> (\<forall>col \<in> set row_values. startswith col '':'') then
        row_loop hs (Suc idx) rs data
      else if length row_values = length hs then
        row_loop hs (Suc idx) rs (data @ [row_values])
      else
        row_loop hs (Suc idx) rs data)"

text \<open>The loop \<^verbatim>\<open>for header, rows in df_matches\<close>, appending to \<^verbatim>\<open>dataframes\<close>.\<close>

fun df_loop :: "(string \<times> string) list \<Rightarrow> TableBlock list \<Rightarrow> TableBlock list" where
  "df_loop [] dataframes = dataframes"
| "df_loop ((header, rws) # ms) dataframes =
     (let hs = cells header;
          data = row_loop hs 0 (split NL (strip rws)) []
      in if data \<noteq> [] then df_loop ms (dataframes @ [\<lparr>headers = hs, rows = data\<rparr>])
         else df_loop ms dataframes)"

definition spaces :: "nat \<Rightarrow> string" where
  "spaces n = replicate n CHR '' ''"

text \<open>The f-string appended to \<^verbatim>\<open>formatted_html\<close>.\<close>

definition html_block :: "string \<Rightarrow> string" where
  "html_block non_table_text =
     [NL] @ spaces 20
     @ ''<div style='background-color: #545353; padding: 10px; border-radius: 10px; max-width: 70%; ''
     @ [NL] @ spaces 20
     @ ''text-align: left; color: white; margin-bottom: 10px;'>''
     @ [NL] @ spaces 24 @ non_table_text
     @ [NL] @ spaces 20 @ ''</div>''
     @ [NL] @ spaces 20"

record fm_state =
  formatted_html :: string
  code_snippets :: "(string \<times> string) list"
  dataframes :: "TableBlock list"
  code_index :: nat

text \<open>The loop \<^verbatim>\<open>for i, part in enumerate(parts)\<close>.\<close>

fun parts_loop ::
  "(string \<times> string) list \<Rightarrow> (string \<times> string) list \<Rightarrow> nat \<Rightarrow> string list \<Rightarrow> fm_state \<Rightarrow> fm_state"
where
  "parts_loop code_blocks df_matches i [] st = st"
| "parts_loop code_blocks df_matches i (p # ps) st =
     (let part = strip p in
      if i mod 2 = 0 then
        (let st1 =
               (if part \<noteq> [] then
                  (let non_table_text = strip (re_sub_empty True df_pattern part) in
                   if non_table_text \<noteq> [] then
                     st\<lparr>formatted_html := formatted_html st @ html_block non_table_text\<rparr>
                   else st)
                else st);
             st2 = st1\<lparr>dataframes := df_loop df_matches (dataframes st1)\<rparr>
         in parts_loop code_blocks df_matches (Suc i) ps st2)
      else
        (if code_index st < length code_blocks then
           (let (language, code) = code_blocks ! code_index st;
                language' = (if language \<noteq> [] then lower language else ''plaintext'')
            in parts_loop code_blocks df_matches (Suc i) ps
                 (st\<lparr>code_snippets := code_snippets st @ [(strip code, language')],
                     code_index := code_index st + 1\<rparr>))
         else parts_loop code_blocks df_matches (Suc i) ps st))"

definition format_message :: "string \<Rightarrow> string \<times> (string \<times> string) list \<times> TableBlock list" where
  "format_message message =
     (let code_blocks = findall2 True code_pattern message;
          df_matches = findall2 False df_pattern message;
          parts = re_split True split_pattern message;
          st = parts_loop code_blocks df_matches 0 parts
                 \<lparr>formatted_html = [], code_snippets = [], dataframes = [], code_index = 0\<rparr>
      in (formatted_html st, code_snippets st, dataframes st))"

section \<open>Dates\<close>

text \<open>
  A \<^verbatim>\<open>date\<close> is represented by its proleptic Gregorian ordinal (\<^verbatim>\<open>date.toordinal()\<close>, day 1
  is 0001-01-01 and day 3652059 is 9999-12-31): the library compares dates as it compares
  their ordinals and subtracts a \<^verbatim>\<open>timedelta\<close> by subtracting days from the ordinal,
  raising \<^verbatim>\<open>OverflowError\<close> when the result leaves the range.  A \<^verbatim>\<open>datetime\<close> is a date
  with a time of day.
\<close>

datatype error = OverflowError

type_synonym date = int

record datetime =
  dt_date :: date
  dt_hour :: nat
  dt_minute :: nat
  dt_second :: nat

definition MAXORDINAL :: int where
  "MAXORDINAL = 3652059"

definition date_sub :: "date \<Rightarrow> int \<Rightarrow> error + date" where
  "date_sub d days =
     (if 1 \<le> d - days \<and> d - days \<le> MAXORDINAL then Inr (d - days) else Inl OverflowError)"

definition is_leap :: "nat \<Rightarrow> bool" where
  "is_leap y = (y mod 4 = 0 \<and> (y mod 100 \<noteq> 0 \<or> y mod 400 = 0))"

definition days_in_month :: "nat \<Rightarrow> nat \<Rightarrow> nat" where
  "days_in_month y m =
     (if m = 2 \<and> is_leap y then 29 else [31, 28, 31, 30, 31, 30, 31, 31, 30, 31, 30, 31] ! (m - 1))"

definition days_before_year :: "nat \<Rightarrow> nat" where
  "days_before_year y = (y - 1) * 365 + (y - 1) div 4 - (y - 1) div 100 + (y - 1) div 400"

definition days_before_month :: "nat \<Rightarrow> nat \<Rightarrow> nat" where
  "days_before_month y m =
     [0, 31, 59, 90, 120, 151, 181, 212, 243, 273, 304, 334] ! (m - 1)
     + (if m > 2 \<and> is_leap y then 1 else 0)"

definition ymd2ord :: "nat \<Rightarrow> nat \<Rightarrow> nat \<Rightarrow> date" where
  "ymd2ord y m d = int (days_before_year y + days_before_month y m + d)"

text \<open>The library's \<^verbatim>\<open>_ord2ymd\<close>, for an ordinal from 1 on.\<close>

definition ord2ymd :: "date \<Rightarrow> nat \<times> nat \<times> nat" where
  "ord2ymd ordinal =
     (let n = nat ordinal - 1;
          n400 = n div 146097; n = n mod 146097;
          n100 = n div 36524; n = n mod 36524;
          n4 = n div 1461; n = n mod 1461;
          n1 = n div 365; n = n mod 365;
          year = n400 * 400 + 1 + n100 * 100 + n4 * 4 + n1
      in if n1 = 4 \<or> n100 = 4 then (year - 1, 12, 31)
         else
           (let leapyear = (n1 = 3 \<and> (n4 \<noteq> 24 \<or> n100 = 3));
                month = (n + 50) div 32;
                preceding = [0, 31, 59, 90, 120, 151, 181, 212, 243, 273, 304, 334] ! (month - 1)
                            + (if month > 2 \<and> leapyear then 1 else 0)
            in if preceding > n then
                 (let month' = month - 1;
                      preceding' = preceding
                        - ([31, 28, 31, 30, 31, 30, 31, 31, 30, 31, 30, 31] ! (month' - 1)
                           + (if month' = 2 \<and> leapyear then 1 else 0))
                  in (year, month', n - preceding' + 1))
               else (year, month, n - preceding + 1)))"

definition digit_char :: "nat \<Rightarrow> char" where
  "digit_char n = ''0123456789'' ! (n mod 10)"

text \<open>The decimal numeral of a number, without leading zeros.\<close>

function decimal :: "nat \<Rightarrow> string" where
  "decimal n = (if n < 10 then [digit_char n] else decimal (n div 10) @ [digit_char n])"
  by pat_completeness auto
termination
  by (relation "measure (\<lambda>n. n)") auto

declare decimal.simps [simp del]

text \<open>
  \<^verbatim>\<open>timestamp.strftime("%Y-%m-%d")\<close>.  The library passes the format to the \<^verbatim>\<open>strftime\<close> of
  the C library.  On Linux that function writes \<^verbatim>\<open>%Y\<close> as the decimal numeral of the year,
  without leading zeros (\<^verbatim>\<open>999\<close> for the year 999), and \<^verbatim>\<open>%m\<close> and \<^verbatim>\<open>%d\<close> with two
  digits.
\<close>

definition strftime_Ymd :: "datetime \<Rightarrow> string" where
  "strftime_Ymd t =
     (let (y, m, d) = ord2ymd (dt_date t)
      in decimal y
         @ [CHR ''-'', digit_char (m div 10), digit_char m,
            CHR ''-'', digit_char (d div 10), digit_char d])"

text \<open>
  The ISO 8601 form \<^verbatim>\<open>YYYY-MM-DD\<close> of a date, which the docstring of
  \<^verbatim>\<open>format_timestamp_label\<close> and the specification name: four digits for the year, two for
  the month, two for the day (\<^verbatim>\<open>date.isoformat()\<close>).
\<close>

definition isoformat :: "nat \<Rightarrow> nat \<Rightarrow> nat \<Rightarrow> string" where
  "isoformat y m d =
     [digit_char (y div 1000), digit_char (y div 100), digit_char (y div 10), digit_char y,
      CHR ''-'', digit_char (m div 10), digit_char m,
      CHR ''-'', digit_char (d div 10), digit_char d]"

section \<open>\<^verbatim>\<open>datetime.strptime\<close>\<close>

text \<open>
  The library turns a format into a regular expression, one named group for each
  directive and \<^verbatim>\<open>\s+\<close> for white space, matches it at the start of the string, and
  raises \<^verbatim>\<open>ValueError\<close> when it does not match, when text is left over after the match, or
  when the fields are not a date and a time of day.  \<open>None\<close> stands for that
  \<^verbatim>\<open>ValueError\<close>, the only exception \<^verbatim>\<open>strptime\<close> raises on a string.  The groups are
  numbered: 1 year, 2 month, 3 day, 4 hour, 5 minute, 6 second.
\<close>

abbreviation D :: rx where
  "D \<equiv> Atom Digit"

abbreviation R :: "char \<Rightarrow> char \<Rightarrow> rx" where
  "R a b \<equiv> Atom (Range a b)"

abbreviation L :: "char \<Rightarrow> rx" where
  "L a \<equiv> Atom (Lit a)"

text \<open>\<^verbatim>\<open>(?P<Y>\d\d\d\d)\<close>\<close>

definition dir_Y :: rx where
  "dir_Y = Group 1 (seq [D, D, D, D])"

text \<open>\<^verbatim>\<open>(?P<m>1[0-2]|0[1-9]|[1-9])\<close>\<close>

definition dir_m :: rx where
  "dir_m = Group 2 (alts [seq [L CHR ''1'', R CHR ''0'' CHR ''2''],
                          seq [L CHR ''0'', R CHR ''1'' CHR ''9''],
                          R CHR ''1'' CHR ''9''])"

text \<open>\<^verbatim>\<open>(?P<d>3[0-1]|[1-2]\d|0[1-9]|[1-9]| [1-9])\<close>\<close>

definition dir_d :: rx where
  "dir_d = Group 3 (alts [seq [L CHR ''3'', R CHR ''0'' CHR ''1''],
                          seq [R CHR ''1'' CHR ''2'', D],
                          seq [L CHR ''0'', R CHR ''1'' CHR ''9''],
                          R CHR ''1'' CHR ''9'',
                          seq [L CHR '' '', R CHR ''1'' CHR ''9'']])"

text \<open>\<^verbatim>\<open>(?P<H>2[0-3]|[0-1]\d|\d)\<close>\<close>

definition dir_H :: rx where
  "dir_H = Group 4 (alts [seq [L CHR ''2'', R CHR ''0'' CHR ''3''],
                          seq [R CHR ''0'' CHR ''1'', D],
                          D])"

text \<open>\<^verbatim>\<open>(?P<M>[0-5]\d|\d)\<close>\<close>

definition dir_M :: rx where
  "dir_M = Group 5 (alts [seq [R CHR ''0'' CHR ''5'', D], D])"

text \<open>\<^verbatim>\<open>(?P<S>6[0-1]|[0-5]\d|\d)\<close>\<close>

definition dir_S :: rx where
  "dir_S = Group 6 (alts [seq [L CHR ''6'', R CHR ''0'' CHR ''1''],
                          seq [R CHR ''0'' CHR ''5'', D],
                          D])"

text \<open>The format \<^verbatim>\<open>"%Y-%m-%d"\<close>.\<close>

definition fmt_date :: rx where
  "fmt_date = seq [dir_Y, L CHR ''-'', dir_m, L CHR ''-'', dir_d]"

text \<open>The format \<^verbatim>\<open>"%Y-%m-%d %H:%M:%S"\<close>.\<close>

definition fmt_datetime :: rx where
  "fmt_datetime =
     seq [dir_Y, L CHR ''-'', dir_m, L CHR ''-'', dir_d, plus (Atom Space),
          dir_H, L CHR '':'', dir_M, L CHR '':'', dir_S]"

text \<open>\<^verbatim>\<open>int(s)\<close> on a field: decimal digits, a leading blank ignored.\<close>

definition int_of_field :: "string option \<Rightarrow> nat" where
  "int_of_field g =
     foldl (\<lambda>n c. 10 * n + (of_char c - 48)) 0 (filter isdigit (or_empty g))"

definition strptime :: "string \<Rightarrow> rx \<Rightarrow> datetime option" where
  "strptime data_string format_regex =
     (case match_here False format_regex data_string of
        None \<Rightarrow> None
      | Some (rest, found) \<Rightarrow>
          if rest \<noteq> [] then None
          else
            (let year = int_of_field (group found 1);
                 month = int_of_field (group found 2);
                 day = int_of_field (group found 3);
                 hour = int_of_field (group found 4);
                 minute = int_of_field (group found 5);
                 second = int_of_field (group found 6)
             in if year < 1 \<or> month < 1 \<or> 12 < month \<or> day < 1 \<or> days_in_month year month < day
                   \<or> 23 < hour \<or> 59 < minute \<or> 59 < second
                then None
                else Some \<lparr>dt_date = ymd2ord year month day, dt_hour = hour,
                           dt_minute = minute, dt_second = second\<rparr>))"

section \<open>\<^verbatim>\<open>format_timestamp_label\<close>\<close>

text \<open>
  The argument is a string, a \<^verbatim>\<open>datetime\<close>, or any other object.  \<open>today\<close> is
  \<^verbatim>\<open>datetime.now().date()\<close>, read from the clock.
\<close>

datatype timestamp = Str string | Datetime datetime | Other

definition bind :: "error + 'a \<Rightarrow> ('a \<Rightarrow> error + 'b) \<Rightarrow> error + 'b" where
  "bind m f = (case m of Inl e \<Rightarrow> Inl e | Inr x \<Rightarrow> f x)"

text \<open>
  The two \<^verbatim>\<open>try\<close> blocks: the full format first, the date-only format when it raises
  \<^verbatim>\<open>ValueError\<close>; \<open>None\<close> is the return of \<^verbatim>\<open>"Invalid timestamp"\<close>, also for an object that
  is neither a string nor a \<^verbatim>\<open>datetime\<close>.
\<close>

definition parse_timestamp :: "timestamp \<Rightarrow> datetime option" where
  "parse_timestamp timestamp =
     (case timestamp of
        Str s \<Rightarrow>
          (case strptime s fmt_datetime of
             Some t \<Rightarrow> Some t
           | None \<Rightarrow> strptime s fmt_date)
      | Datetime t \<Rightarrow> Some t
      | Other \<Rightarrow> None)"

text \<open>
  The chain of comparisons on line 131 to 140.  In \<^verbatim>\<open>a <= x < b\<close> the bound \<^verbatim>\<open>b\<close> is
  computed only when \<^verbatim>\<open>a <= x\<close> holds.
\<close>

definition bucket :: "date \<Rightarrow> datetime \<Rightarrow> error + string" where
  "bucket today t =
     (let timestamp_date = dt_date t in
      if timestamp_date = today then Inr ''Today''
      else bind (date_sub today 1) (\<lambda>d1.
        if timestamp_date = d1 then Inr ''Yesterday''
        else bind (date_sub today 7) (\<lambda>d7.
          bind (if d7 \<le> timestamp_date
                then bind (date_sub today 1) (\<lambda>d1. Inr (timestamp_date < d1))
                else Inr False) (\<lambda>in7.
            if in7 then Inr ''Previous 7 days''
            else bind (date_sub today 30) (\<lambda>d30.
              bind (if d30 \<le> timestamp_date
                    then bind (date_sub today 7) (\<lambda>d7. Inr (timestamp_date < d7))
                    else Inr False) (\<lambda>in30.
                if in30 then Inr ''Previous 30 days''
                else Inr (strftime_Ymd t)))))))"

definition format_timestamp_label :: "date \<Rightarrow> timestamp \<Rightarrow> error + string" where
  "format_timestamp_label today timestamp =
     (case parse_timestamp timestamp of
        None \<Rightarrow> Inr ''Invalid timestamp''
      | Some t \<Rightarrow> bucket today t)"

section \<open>The results of \<^verbatim>\<open>format_message\<close> and the notions of its specification\<close>

text \<open>The three values returned: the text, the code snippets, the tables.\<close>

definition fm_text :: "string \<Rightarrow> string" where
  "fm_text m = fst (format_message m)"

definition fm_code :: "string \<Rightarrow> (string \<times> string) list" where
  "fm_code m = fst (snd (format_message m))"

definition fm_tables :: "string \<Rightarrow> TableBlock list" where
  "fm_tables m = snd (snd (format_message m))"

text \<open>
  A fenced region, as the specification describes it, read without the regular expression:
  three backticks, the longest run of word characters as the language token, a newline,
  and the content up to the nearest following three backticks.  \<open>fence_close\<close> finds that
  nearest closing fence and returns the content before it and the text after it;
  \<open>fence_at\<close> recognises a region that starts at the head of the string; \<open>fences\<close> scans
  the message from left to right and resumes after each closing fence.
\<close>

definition BTS :: string where
  "BTS = [CHR 0x60, CHR 0x60, CHR 0x60]"

fun fence_close :: "string \<Rightarrow> (string \<times> string) option" where
  "fence_close [] = None"
| "fence_close (x # xs) =
     (if take 3 (x # xs) = BTS then Some ([], drop 3 (x # xs))
      else map_option (\<lambda>(body, rest). (x # body, rest)) (fence_close xs))"

definition fence_at :: "string \<Rightarrow> (string \<times> string \<times> string) option" where
  "fence_at s =
     (if take 3 s = BTS then
        (let s1 = drop 3 s; language = takeWhile isword s1
         in case dropWhile isword s1 of
              [] \<Rightarrow> None
            | x # s3 \<Rightarrow>
                if x = NL
                then map_option (\<lambda>(body, rest). (language, body, rest)) (fence_close s3)
                else None)
      else None)"

function fences :: "string \<Rightarrow> (string \<times> string) list" where
  "fences s =
     (case fence_at s of
        Some (language, body, rest) \<Rightarrow>
          if length rest < length s then (language, body) # fences rest else []
      | None \<Rightarrow> (case s of [] \<Rightarrow> [] | x # xs \<Rightarrow> fences xs))"
  by pat_completeness auto
termination
  by (relation "measure length") auto

declare fences.simps [simp del]

text \<open>
  The same scan when a fence may open only where a line starts, which is how the
  specification words it (``a line starting with three backticks'').
\<close>

function line_fences :: "bool \<Rightarrow> string \<Rightarrow> (string \<times> string) list" where
  "line_fences line_start s =
     (case (if line_start then fence_at s else None) of
        Some (language, body, rest) \<Rightarrow>
          if length rest < length s then (language, body) # line_fences False rest else []
      | None \<Rightarrow> (case s of [] \<Rightarrow> [] | x # xs \<Rightarrow> line_fences (x = NL) xs))"
  by pat_completeness auto
termination
  by (relation "measure (\<lambda>(b, s). length s)") auto

declare line_fences.simps [simp del]

text \<open>The snippet the specification asks for a region: trimmed content, language or sentinel.\<close>

definition snippet_of :: "string \<times> string \<Rightarrow> string \<times> string" where
  "snippet_of f = (strip (snd f), if fst f = [] then ''plaintext'' else lower (fst f))"

text \<open>
  A Markdown alignment row, as the specification describes it: every cell starts with a
  colon or consists of dashes and colons only.
\<close>

definition separator_row :: "string list \<Rightarrow> bool" where
  "separator_row r =
     (r \<noteq> [] \<and> list_all (\<lambda>c. startswith c '':'' \<or> list_all (\<lambda>x. x = CHR ''-'' \<or> x = CHR '':'') c) r)"

text \<open>Auxiliary functions of the proofs.\<close>

fun even_parts :: "nat \<Rightarrow> 'a list \<Rightarrow> nat" where
  "even_parts i [] = 0"
| "even_parts i (p # ps) = (if i mod 2 = 0 then 1 else 0) + even_parts (Suc i) ps"

fun odd_parts :: "nat \<Rightarrow> 'a list \<Rightarrow> nat" where
  "odd_parts i [] = 0"
| "odd_parts i (p # ps) = (if i mod 2 = 0 then 0 else 1) + odd_parts (Suc i) ps"

fun ungroup :: "rx \<Rightarrow> rx" where
  "ungroup (Group i r) = ungroup r"
| "ungroup (Cat r1 r2) = Cat (ungroup r1) (ungroup r2)"
| "ungroup (Alt r1 r2) = Alt (ungroup r1) (ungroup r2)"
| "ungroup (Opt r) = Opt (ungroup r)"
| "ungroup (Star r) = Star (ungroup r)"
| "ungroup (LazyStar r) = LazyStar (ungroup r)"
| "ungroup r = r"

fun tails :: "'a list \<Rightarrow> 'a list list" where
  "tails [] = [[]]"
| "tails (x # xs) = (x # xs) # tails xs"

definition hd_opt :: "'a list \<Rightarrow> 'a option" where
  "hd_opt xs = (case xs of [] \<Rightarrow> None | m # _ \<Rightarrow> Some m)"

text \<open>The messages on which the theorems below are evaluated.\<close>

text \<open>A table of one data row followed by one fenced block.\<close>

definition msg_table_fence :: string where
  "msg_table_fence =
     ''| A | B |'' @ [NL] @ ''|---|---|'' @ [NL] @ ''| 1 | 2 |'' @ [NL]
     @ BTS @ [NL] @ ''x'' @ [NL] @ BTS"

text \<open>A table whose alignment row mixes a plain and a colon cell.\<close>

definition msg_mixed_separator :: string where
  "msg_mixed_separator = ''| A | B |'' @ [NL] @ ''|---|:---|'' @ [NL] @ ''| 1 | 2 |''"

text \<open>Three lines of two pipes each.\<close>

definition msg_empty_headers :: string where
  "msg_empty_headers = ''||'' @ [NL] @ ''||'' @ [NL] @ ''||''"

text \<open>A fence that opens in the middle of a line.\<close>

definition msg_inline_fence :: string where
  "msg_inline_fence = ''a'' @ BTS @ [NL] @ ''x'' @ [NL] @ BTS"

text \<open>A table with a row of three cells under two headers, and a row of two.\<close>

definition msg_arity :: string where
  "msg_arity =
     ''| A | B |'' @ [NL] @ ''|---|---|'' @ [NL] @ ''| 1 | 2 | 3 |'' @ [NL] @ ''| 4 | 5 |''"

text \<open>Two fenced blocks, the first tagged \<^verbatim>\<open>Py\<close>, the second untagged.\<close>

definition msg_two_fences :: string where
  "msg_two_fences =
     BTS @ ''Py'' @ [NL] @ ''x=1'' @ [NL] @ BTS @ [NL] @ BTS @ [NL] @ ''y'' @ [NL] @ BTS"

text \<open>A table whose first row has content after a leading colon in every cell.\<close>

definition msg_colon_row :: string where
  "msg_colon_row = ''| A | B |'' @ [NL] @ ''|:alpha|:beta|'' @ [NL] @ ''| 1 | 2 |''"

section \<open>Lemmas about the loops of \<^verbatim>\<open>format_message\<close>\<close>

lemma row_loop_acc: "row_loop hs idx ls data = data @ row_loop hs idx ls []"
proof (induction ls arbitrary: idx data)
  case Nil
  show ?case by simp
next
  case (Cons l ls)
  have a: "row_loop hs (Suc idx) ls (data @ [cells l]) = data @ [cells l] @ row_loop hs (Suc idx) ls []"
    using Cons.IH [of "Suc idx" "data @ [cells l]"] by simp
  have b: "row_loop hs (Suc idx) ls [cells l] = [cells l] @ row_loop hs (Suc idx) ls []"
    using Cons.IH [of "Suc idx" "[cells l]"] by simp
  show ?case
    using a b Cons.IH [of "Suc idx" data] by (auto simp: Let_def)
qed

lemma row_loop_later:
  "row_loop hs (Suc i) ls [] = filter (\<lambda>r. length r = length hs) (map cells ls)"
proof (induction ls arbitrary: i)
  case Nil
  show ?case by simp
next
  case (Cons l ls)
  show ?case
    using Cons.IH [of "Suc i"] row_loop_acc [of hs "Suc (Suc i)" ls "[cells l]"]
    by (simp add: Let_def)
qed

lemma row_loop_first:
  "row_loop hs 0 (l # ls) [] =
     (if (\<forall>col \<in> set (cells l). startswith col '':'') then []
      else if length (cells l) = length hs then [cells l] else [])
     @ filter (\<lambda>r. length r = length hs) (map cells ls)"
  using row_loop_acc [of hs "Suc 0" ls "[cells l]"]
  by (auto simp: Let_def row_loop_later)

lemma row_loop_lengths: "r \<in> set (row_loop hs idx ls []) \<Longrightarrow> length r = length hs"
proof (cases idx)
  case 0
  assume r: "r \<in> set (row_loop hs idx ls [])"
  show ?thesis
  proof (cases ls)
    case Nil
    with r show ?thesis by simp
  next
    case (Cons l ls')
    with r 0 show ?thesis by (auto simp del: row_loop.simps simp add: row_loop_first split: if_splits)
  qed
next
  case (Suc i)
  assume "r \<in> set (row_loop hs idx ls [])"
  with Suc show ?thesis by (simp add: row_loop_later)
qed

lemma df_loop_acc: "df_loop ms dfs = dfs @ df_loop ms []"
proof (induction ms arbitrary: dfs)
  case Nil
  show ?case by simp
next
  case (Cons m ms)
  obtain header rws where m: "m = (header, rws)" by (cases m)
  define tb where "tb = \<lparr>headers = cells header, rows = row_loop (cells header) 0 (split NL (strip rws)) []\<rparr>"
  have a: "df_loop ms (dfs @ [tb]) = dfs @ [tb] @ df_loop ms []"
    using Cons.IH [of "dfs @ [tb]"] by simp
  have b: "df_loop ms [tb] = [tb] @ df_loop ms []"
    using Cons.IH [of "[tb]"] by simp
  show ?case
    using a b Cons.IH [of dfs] by (simp add: m Let_def tb_def)
qed

lemma df_loop_Cons:
  "df_loop ((header, rws) # ms) [] =
     (let hs = cells header; data = row_loop hs 0 (split NL (strip rws)) []
      in if data \<noteq> [] then [\<lparr>headers = hs, rows = data\<rparr>] else [])
     @ df_loop ms []"
  using df_loop_acc [of ms "[\<lparr>headers = cells header, rows = row_loop (cells header) 0 (split NL (strip rws)) []\<rparr>]"]
  by (simp add: Let_def)

lemma df_loop_member:
  "tb \<in> set (df_loop ms []) \<longleftrightarrow>
     (\<exists>(header, rws) \<in> set ms.
        tb = \<lparr>headers = cells header, rows = row_loop (cells header) 0 (split NL (strip rws)) []\<rparr>
        \<and> rows tb \<noteq> [])"
proof (induction ms)
  case Nil
  show ?case by simp
next
  case (Cons m ms)
  obtain header rws where m: "m = (header, rws)" by (cases m)
  show ?case
    unfolding m df_loop_Cons using Cons.IH by (auto simp: Let_def)
qed

lemma parts_loop_dataframes:
  "dataframes (parts_loop cb dm i ps st) =
     dataframes st @ concat (replicate (even_parts i ps) (df_loop dm []))"
proof (induction ps arbitrary: i st)
  case Nil
  show ?case by simp
next
  case (Cons p ps)
  show ?case
    by (simp add: Let_def Cons.IH df_loop_acc [of dm "dataframes st"] split: prod.splits)
qed

lemma parts_loop_snippets:
  "code_index st + odd_parts i ps \<le> length cb \<Longrightarrow>
   code_snippets (parts_loop cb dm i ps st) =
     code_snippets st
     @ map (\<lambda>(language, code). (strip code, if language \<noteq> [] then lower language else ''plaintext''))
         (take (odd_parts i ps) (drop (code_index st) cb))
   \<and> code_index (parts_loop cb dm i ps st) = code_index st + odd_parts i ps"
proof (induction ps arbitrary: i st)
  case Nil
  show ?case by simp
next
  case (Cons p ps)
  show ?case
  proof (cases "i mod 2 = 0")
    case True
    then show ?thesis using Cons.prems by (simp add: Let_def Cons.IH)
  next
    case False
    then have lt: "code_index st < length cb" using Cons.prems by simp
    obtain language code where cb: "cb ! code_index st = (language, code)" by (cases "cb ! code_index st")
    have d: "drop (code_index st) cb = (language, code) # drop (Suc (code_index st)) cb"
      using lt cb by (metis Cons_nth_drop_Suc)
    show ?thesis using False Cons.prems lt
      by (simp add: Let_def cb Cons.IH d)
  qed
qed

section \<open>Lemmas about the matcher\<close>

lemma concat_fst_cong:
  assumes "map fst xs = map fst ys"
    and "\<And>t c c'. (t, c) \<in> set xs \<Longrightarrow> map fst (f t c) = map fst (g t c')"
  shows "map fst (concat (map (\<lambda>(t, c). f t c) xs)) = map fst (concat (map (\<lambda>(t, c). g t c) ys))"
  using assms
proof (induction xs arbitrary: ys)
  case Nil
  then show ?case by simp
next
  case (Cons x xs)
  obtain y ys' where ys: "ys = y # ys'" using Cons.prems(1) by (cases ys) auto
  obtain t c where x: "x = (t, c)" by (cases x)
  obtain t' c' where y: "y = (t', c')" by (cases y)
  have tt: "t' = t" using Cons.prems(1) by (simp add: ys x y)
  have h: "map fst (f t c) = map fst (g t c')" using Cons.prems(2) [of t c c'] by (simp add: x)
  have r: "map fst (concat (map (\<lambda>(t, c). f t c) xs)) = map fst (concat (map (\<lambda>(t, c). g t c) ys'))"
    using Cons.IH [of ys'] Cons.prems by (simp add: ys)
  show ?case by (simp add: ys x y tt h r)
qed

lemma run_ungroup: "map fst (run d r s c) = map fst (run d (ungroup r) s c')"
proof (induction d r s c arbitrary: c' rule: run.induct)
  case (4 d r1 r2 s c)
  have a: "map fst (run d r1 s c) = map fst (run d (ungroup r1) s c')" using "4.IH"(1) .
  show ?case
    using concat_fst_cong [OF a, of "\<lambda>t c. run d r2 t c" "\<lambda>t c. run d (ungroup r2) t c"] "4.IH"(2)
    by simp
next
  case (7 d r s c)
  have a: "map fst (run d r s c) = map fst (run d (ungroup r) s c')" using "7.IH"(1) .
  have "map fst (concat (map (\<lambda>(t, c'). if length t < length s then run d (Star r) t c' else []) (run d r s c)))
      = map fst (concat (map (\<lambda>(t, c'). if length t < length s then run d (Star (ungroup r)) t c' else []) (run d (ungroup r) s c')))"
    using concat_fst_cong [OF a, of "\<lambda>t c'. if length t < length s then run d (Star r) t c' else []"
        "\<lambda>t c'. if length t < length s then run d (Star (ungroup r)) t c' else []"] "7.IH"(2)
    by simp
  then show ?case by (simp add: run.simps)
next
  case (8 d r s c)
  have a: "map fst (run d r s c) = map fst (run d (ungroup r) s c')" using "8.IH"(1) .
  have "map fst (concat (map (\<lambda>(t, c'). if length t < length s then run d (LazyStar r) t c' else []) (run d r s c)))
      = map fst (concat (map (\<lambda>(t, c'). if length t < length s then run d (LazyStar (ungroup r)) t c' else []) (run d (ungroup r) s c')))"
    using concat_fst_cong [OF a, of "\<lambda>t c'. if length t < length s then run d (LazyStar r) t c' else []"
        "\<lambda>t c'. if length t < length s then run d (LazyStar (ungroup r)) t c' else []"] "8.IH"(2)
    by simp
  then show ?case by (simp add: run.simps)
next
  case (9 d i r s c)
  have "map fst (map (\<lambda>(t, c'). (t, (i, consumed s t) # c')) (run d r s c)) = map fst (run d r s c)"
    by (simp add: case_prod_unfold comp_def)
  then show ?case using "9.IH" [of c'] by simp
qed (auto split: list.splits)

lemma match_here_ungroup:
  "map_option fst (match_here d r s) = map_option fst (match_here d (ungroup r) s)"
proof -
  have "map fst (run d r s []) = map fst (run d (ungroup r) s [])" by (rule run_ungroup)
  then show ?thesis
    by (cases "run d r s []"; cases "run d (ungroup r) s []") (auto simp: match_here_def)
qed

lemma finditer_same_rests:
  assumes "\<And>s. map_option fst (match_here d r1 s) = map_option fst (match_here d r2 s)"
  shows "map (\<lambda>(gap, m, c). (gap, m)) (fst (finditer d r1 g s))
           = map (\<lambda>(gap, m, c). (gap, m)) (fst (finditer d r2 g s))
         \<and> snd (finditer d r1 g s) = snd (finditer d r2 g s)"
proof (induction s arbitrary: g rule: length_induct)
  case (1 s)
  note eq = assms [of s]
  show ?case
  proof (cases "match_here d r1 s")
    case None
    then have n2: "match_here d r2 s = None" using eq by simp
    show ?thesis
    proof (cases s)
      case Nil
      then show ?thesis using None n2 by (simp add: finditer.simps [of _ _ _ "[]"])
    next
      case (Cons x xs)
      have "length xs < length s" using Cons by simp
      then show ?thesis using None n2 "1.IH" Cons
        by (simp add: finditer.simps [of _ _ _ "x # xs"])
    qed
  next
    case (Some a)
    obtain t c where a: "a = (t, c)" by (cases a)
    obtain c2 where s2: "match_here d r2 s = Some (t, c2)"
      using eq Some a by (cases "match_here d r2 s") auto
    show ?thesis
    proof (cases "length t < length s")
      case True
      show ?thesis using "1.IH" [rule_format, OF True, of "[]"] Some a s2 True
        by (auto simp add: finditer.simps [of _ _ _ s] split: prod.splits)
    next
      case False
      show ?thesis
      proof (cases s)
        case Nil
        then show ?thesis using Some a s2 False by (simp add: finditer.simps [of _ _ _ "[]"])
      next
        case (Cons x xs)
        have "length xs < length s" using Cons by simp
        then show ?thesis using "1.IH" [rule_format, of xs "[x]"] Cons Some a s2 False
          by (auto simp add: finditer.simps [of _ _ _ "x # xs"] split: prod.splits)
      qed
    qed
  qed
qed

lemma even_parts_interleave:
  "even_parts i (interleave ms rest) = (if i mod 2 = 0 then Suc (length ms) else length ms)"
proof (induction ms arbitrary: i)
  case Nil
  show ?case by simp
next
  case (Cons m ms)
  obtain gap mt c where m: "m = (gap, mt, c)" by (cases m)
  have "Suc (Suc i) mod 2 = i mod 2" by simp
  then show ?case using Cons.IH [of "Suc (Suc i)"] by (simp add: m mod_Suc)
qed

lemma odd_parts_interleave:
  "odd_parts i (interleave ms rest) = (if i mod 2 = 0 then length ms else Suc (length ms))"
proof (induction ms arbitrary: i)
  case Nil
  show ?case by simp
next
  case (Cons m ms)
  obtain gap mt c where m: "m = (gap, mt, c)" by (cases m)
  have "Suc (Suc i) mod 2 = i mod 2" by simp
  then show ?case using Cons.IH [of "Suc (Suc i)"] by (simp add: m mod_Suc)
qed

lemma tails_length: "t \<in> set (tails xs) \<Longrightarrow> length t \<le> length xs"
  by (induction xs) auto

lemma consumed_Cons: "length t \<le> length xs \<Longrightarrow> consumed (x # xs) t = x # consumed xs t"
  by (simp add: consumed_def Suc_diff_le)

lemma consumed_self: "consumed s s = []"
  by (simp add: consumed_def)

lemma consumed_dropWhile: "consumed s (dropWhile P s) = takeWhile P s"
proof -
  have "length s - length (dropWhile P s) = length (takeWhile P s)"
    by (metis add_diff_cancel_right' length_append takeWhile_dropWhile_id)
  then show ?thesis
    by (simp add: consumed_def takeWhile_eq_take [symmetric])
qed

lemma run_lazy_dot: "run True (LazyStar (Atom Dot)) s c = map (\<lambda>t. (t, c)) (tails s)"
proof (induction s)
  case Nil
  show ?case by (simp add: run.simps(8) [of _ _ "[]"])
next
  case (Cons x xs)
  show ?case using Cons.IH by (simp add: run.simps(8) [of _ _ "x # xs"])
qed

lemma run_star_atom_Nil: "run d (Star (Atom a)) [] c = [([], c)]"
  by (simp add: run.simps(7) [of _ _ "[]"])

lemma run_star_atom_Cons:
  "run d (Star (Atom a)) (x # xs) c =
     (if atom_ok d a x then run d (Star (Atom a)) xs c else []) @ [(x # xs, c)]"
  by (simp add: run.simps(7) [of _ _ "x # xs"])

lemma star_atom_bind:
  assumes "\<And>x xs c'. atom_ok d a x \<Longrightarrow> F (x # xs) c' = []"
  shows "concat (map (\<lambda>(t, c'). F t c') (run d (Star (Atom a)) s c))
           = F (dropWhile (atom_ok d a) s) c"
proof (induction s)
  case Nil
  show ?case by (simp add: run_star_atom_Nil)
next
  case (Cons x xs)
  show ?case
  proof (cases "atom_ok d a x")
    case True
    then show ?thesis
      using Cons.IH assms [of x xs c] by (simp only: run_star_atom_Cons) simp
  next
    case False
    then show ?thesis by (simp only: run_star_atom_Cons) simp
  qed
qed

lemma run_bts:
  "run d (Cat BT (Cat BT BT)) t c = (if take 3 t = BTS then [(drop 3 t, c)] else [])"
proof (cases t)
  case Nil
  then show ?thesis by (simp add: BTS_def)
next
  case (Cons a t1)
  show ?thesis
  proof (cases t1)
    case Nil
    then show ?thesis using Cons by (simp add: BTS_def)
  next
    case (Cons b t2)
    show ?thesis
    proof (cases t2)
      case Nil
      then show ?thesis using \<open>t = a # t1\<close> \<open>t1 = b # t2\<close> by (simp add: BTS_def)
    next
      case (Cons e t3)
      then show ?thesis using \<open>t = a # t1\<close> \<open>t1 = b # t2\<close> by (auto simp add: BTS_def)
    qed
  qed
qed

lemma close_list:
  "hd_opt (concat (map (\<lambda>t. if take 3 t = BTS then [(drop 3 t, (i, p @ consumed s t) # c)] else [])
                       (tails s)))
     = map_option (\<lambda>(body, rest). (rest, (i, p @ body) # c)) (fence_close s)"
proof (induction s arbitrary: p)
  case Nil
  show ?case by (simp add: hd_opt_def BTS_def)
next
  case (Cons x xs)
  show ?case
  proof (cases "take 3 (x # xs) = BTS")
    case True
    then show ?thesis by (simp add: hd_opt_def consumed_self)
  next
    case False
    have eq: "map (\<lambda>t. if take 3 t = BTS then [(drop 3 t, (i, p @ consumed (x # xs) t) # c)] else []) (tails xs)
            = map (\<lambda>t. if take 3 t = BTS then [(drop 3 t, (i, (p @ [x]) @ consumed xs t) # c)] else []) (tails xs)"
      by (rule map_cong) (auto simp: consumed_Cons dest: tails_length)
    have "concat (map (\<lambda>t. if take 3 t = BTS then [(drop 3 t, (i, p @ consumed (x # xs) t) # c)] else [])
                       (tails (x # xs)))
        = concat (map (\<lambda>t. if take 3 t = BTS then [(drop 3 t, (i, p @ consumed (x # xs) t) # c)] else [])
                       (tails xs))"
      using False by simp
    then have "hd_opt (concat (map (\<lambda>t. if take 3 t = BTS then [(drop 3 t, (i, p @ consumed (x # xs) t) # c)] else [])
                       (tails (x # xs))))
        = hd_opt (concat (map (\<lambda>t. if take 3 t = BTS then [(drop 3 t, (i, (p @ [x]) @ consumed xs t) # c)] else [])
                       (tails xs)))"
      by (simp only: eq)
    also have "\<dots> = map_option (\<lambda>(body, rest). (rest, (i, (p @ [x]) @ body) # c)) (fence_close xs)"
      by (rule Cons.IH)
    also have "\<dots> = map_option (\<lambda>(body, rest). (rest, (i, p @ body) # c)) (fence_close (x # xs))"
      using False by (cases "fence_close xs") auto
    finally show ?thesis .
  qed
qed

lemma run_group_lazy_bts:
  "run True (Cat (Group i (LazyStar (Atom Dot))) (Cat BT (Cat BT BT))) s c
     = concat (map (\<lambda>t. if take 3 t = BTS then [(drop 3 t, (i, consumed s t) # c)] else []) (tails s))"
proof -
  have "run True (Cat (Group i (LazyStar (Atom Dot))) (Cat BT (Cat BT BT))) s c
      = concat (map (\<lambda>(t, c'). run True (Cat BT (Cat BT BT)) t c')
                 (map (\<lambda>(t, c'). (t, (i, consumed s t) # c')) (map (\<lambda>t. (t, c)) (tails s))))"
    by (subst run.simps(4), subst run.simps(9), simp only: run_lazy_dot)
  also have "\<dots> = concat (map (\<lambda>t. run True (Cat BT (Cat BT BT)) t ((i, consumed s t) # c)) (tails s))"
    by (simp add: comp_def del: run.simps)
  finally show ?thesis by (simp only: run_bts)
qed

lemma not_word_NL: "\<not> isword NL"
  by (simp add: isword_def)

lemma atom_ok_Word: "atom_ok d Word = isword"
  by (rule ext) simp

lemma run_lit_cat:
  "run d (Cat (Atom (Lit a)) Q) s c =
     (case s of [] \<Rightarrow> [] | x # xs \<Rightarrow> if x = a then run d Q xs c else [])"
  by (cases s) (simp_all add: run.simps(4) [of _ "Atom (Lit a)"])

lemma run_bts_then:
  "run d (Cat BT (Cat BT (Cat BT Q))) s c = (if take 3 s = BTS then run d Q (drop 3 s) c else [])"
proof (cases s)
  case Nil
  then show ?thesis by (simp add: run_lit_cat BTS_def)
next
  case (Cons a t1)
  show ?thesis
  proof (cases t1)
    case Nil
    then show ?thesis using Cons by (simp add: run_lit_cat BTS_def)
  next
    case (Cons b t2)
    show ?thesis
    proof (cases t2)
      case Nil
      then show ?thesis using \<open>s = a # t1\<close> \<open>t1 = b # t2\<close> by (simp add: run_lit_cat BTS_def)
    next
      case (Cons e t3)
      then show ?thesis using \<open>s = a # t1\<close> \<open>t1 = b # t2\<close>
        by (auto simp add: run_lit_cat BTS_def)
    qed
  qed
qed

lemma run_opt_lang:
  assumes Q: "\<And>x xs c'. isword x \<Longrightarrow> run True Q (x # xs) c' = []"
  shows "run True (Cat (Opt (Group i (Cat (Atom Word) (Star (Atom Word))))) Q) s c
           = run True Q (dropWhile isword s)
               (if takeWhile isword s = [] then c else (i, takeWhile isword s) # c)"
proof -
  define G where "G = Group i (Cat (Atom Word) (Star (Atom Word)))"
  have split: "run True (Cat (Opt G) Q) s c
      = concat (map (\<lambda>(t, c'). run True Q t c') (run True G s c)) @ run True Q s c"
    by (subst run.simps(4), subst run.simps(6)) simp
  show ?thesis
  proof (cases s)
    case Nil
    have "run True G [] c = []" by (simp add: G_def)
    then show ?thesis using split Nil by (simp add: G_def)
  next
    case (Cons x xs)
    show ?thesis
    proof (cases "isword x")
      case False
      have "run True G (x # xs) c = []" using False by (simp add: G_def)
      then show ?thesis using split Cons False by (simp add: G_def)
    next
      case True
      have g: "run True G (x # xs) c
          = map (\<lambda>(t, c'). (t, (i, consumed (x # xs) t) # c')) (run True (Star (Atom Word)) xs c)"
        using True by (simp add: G_def)
      have "concat (map (\<lambda>(t, c'). run True Q t c') (run True G (x # xs) c))
          = concat (map (\<lambda>(t, c'). run True Q t ((i, consumed (x # xs) t) # c'))
                     (run True (Star (Atom Word)) xs c))"
        by (simp add: g comp_def case_prod_unfold)
      also have "\<dots> = run True Q (dropWhile (atom_ok True Word) xs)
                         ((i, consumed (x # xs) (dropWhile (atom_ok True Word) xs)) # c)"
        by (rule star_atom_bind [where F = "\<lambda>t c'. run True Q t ((i, consumed (x # xs) t) # c')"])
           (simp add: Q)
      also have "\<dots> = run True Q (dropWhile isword xs) ((i, x # takeWhile isword xs) # c)"
        by (simp add: atom_ok_Word consumed_Cons length_dropWhile_le consumed_dropWhile)
      finally have a: "concat (map (\<lambda>(t, c'). run True Q t c') (run True G (x # xs) c))
          = run True Q (dropWhile isword xs) ((i, x # takeWhile isword xs) # c)" .
      have b: "run True Q (x # xs) c = []" using True by (rule Q)
      show ?thesis using split a b Cons True by (simp add: G_def)
    qed
  qed
qed

lemma run_code_pattern:
  "run True code_pattern s c =
     (if take 3 s = BTS then
        (let s1 = drop 3 s; language = takeWhile isword s1;
             c1 = (if language = [] then c else (1, language) # c)
         in case dropWhile isword s1 of
              [] \<Rightarrow> []
            | x # s3 \<Rightarrow>
                if x = NL
                then concat (map (\<lambda>t. if take 3 t = BTS then [(drop 3 t, (2, consumed s3 t) # c1)] else [])
                              (tails s3))
                else [])
      else [])"
proof -
  define Q where "Q = Cat (Atom (Lit NL)) (Cat (Group 2 (LazyStar (Atom Dot))) (Cat BT (Cat BT BT)))"
  have cp: "code_pattern = Cat BT (Cat BT (Cat BT (Cat (Opt (Group 1 (Cat (Atom Word) (Star (Atom Word))))) Q)))"
    by (simp add: code_pattern_def plus_def Q_def)
  have Rw: "\<And>x xs c'. isword x \<Longrightarrow> run True Q (x # xs) c' = []"
    unfolding Q_def using not_word_NL by (subst run_lit_cat) auto
  have Rr: "\<And>t c'. run True Q t c' =
      (case t of [] \<Rightarrow> []
       | x # s3 \<Rightarrow> if x = NL
           then concat (map (\<lambda>t. if take 3 t = BTS then [(drop 3 t, (2, consumed s3 t) # c')] else []) (tails s3))
           else [])"
    unfolding Q_def by (subst run_lit_cat) (simp only: run_group_lazy_bts)
  have a: "run True code_pattern s c =
      (if take 3 s = BTS
       then run True (Cat (Opt (Group 1 (Cat (Atom Word) (Star (Atom Word))))) Q) (drop 3 s) c
       else [])"
    by (simp only: cp run_bts_then)
  have b: "run True (Cat (Opt (Group 1 (Cat (Atom Word) (Star (Atom Word))))) Q) (drop 3 s) c
      = run True Q (dropWhile isword (drop 3 s))
          (if takeWhile isword (drop 3 s) = [] then c else (1, takeWhile isword (drop 3 s)) # c)"
    by (rule run_opt_lang [OF Rw])
  show ?thesis
    by (simp only: a b Rr Let_def)
qed

lemma fence_close_shorter: "fence_close s = Some (body, rest) \<Longrightarrow> length rest < length s"
proof (induction s arbitrary: body)
  case Nil
  then show ?case by simp
next
  case (Cons x xs)
  show ?case
  proof (cases "take 3 (x # xs) = BTS")
    case True
    then show ?thesis using Cons.prems by auto
  next
    case False
    then obtain b where "fence_close xs = Some (b, rest)"
      using Cons.prems by (cases "fence_close xs") auto
    then show ?thesis using Cons.IH by fastforce
  qed
qed

lemma fence_at_shorter: "fence_at s = Some (language, body, rest) \<Longrightarrow> length rest < length s"
proof -
  assume a: "fence_at s = Some (language, body, rest)"
  then have t: "take 3 s = BTS" by (auto simp: fence_at_def split: if_splits)
  from a t obtain s3 where d: "dropWhile isword (drop 3 s) = NL # s3"
    and c: "fence_close s3 = Some (body, rest)"
    by (auto simp: fence_at_def Let_def split: list.splits if_splits)
  have "length rest < length s3" using c by (rule fence_close_shorter)
  moreover have "length (NL # s3) \<le> length (drop 3 s)"
    using length_dropWhile_le [of isword "drop 3 s"] d by simp
  ultimately show ?thesis by simp
qed

lemma match_here_code:
  "map_option (\<lambda>(rest, c). (or_empty (group c 1), or_empty (group c 2), rest))
      (match_here True code_pattern s) = fence_at s"
proof (cases "take 3 s = BTS")
  case False
  then show ?thesis by (simp add: match_here_def run_code_pattern fence_at_def)
next
  case True
  define s1 where "s1 = drop 3 s"
  show ?thesis
  proof (cases "dropWhile isword s1")
    case Nil
    show ?thesis
      unfolding match_here_def run_code_pattern fence_at_def Let_def s1_def [symmetric] Nil
      using True by simp
  next
    case (Cons x s3)
    show ?thesis
    proof (cases "x = NL")
      case False
      show ?thesis
        unfolding match_here_def run_code_pattern fence_at_def Let_def s1_def [symmetric] Cons
        using True False by simp
    next
      case xnl: True
      define c1 where "c1 = (if takeWhile isword s1 = [] then [] else [(1 :: nat, takeWhile isword s1)])"
      have r: "run True code_pattern s [] =
          concat (map (\<lambda>t. if take 3 t = BTS then [(drop 3 t, (2, consumed s3 t) # c1)] else []) (tails s3))"
        unfolding run_code_pattern Let_def s1_def [symmetric] Cons c1_def
        using True xnl by simp
      have m: "match_here True code_pattern s
          = map_option (\<lambda>(body, rest). (rest, (2, body) # c1)) (fence_close s3)"
        unfolding match_here_def r using close_list [of 2 "[]" s3 c1, unfolded append_Nil]
        by (simp add: hd_opt_def)
      have f: "fence_at s = map_option (\<lambda>(body, rest). (takeWhile isword s1, body, rest)) (fence_close s3)"
        unfolding fence_at_def Let_def s1_def [symmetric] Cons
        using True xnl by simp
      show ?thesis unfolding m f
        by (cases "fence_close s3") (auto simp: c1_def group_def or_empty_def)
    qed
  qed
qed

lemma finditer_code_fences:
  "map (\<lambda>(gap, m, c). (or_empty (group c 1), or_empty (group c 2)))
       (fst (finditer True code_pattern g s)) = fences s"
proof (induction s arbitrary: g rule: length_induct)
  case (1 s)
  note mh = match_here_code [of s]
  show ?case
  proof (cases "match_here True code_pattern s")
    case None
    then have fa: "fence_at s = None" using mh by simp
    show ?thesis
    proof (cases s)
      case Nil
      then show ?thesis using None fa
        by (simp add: finditer.simps [of _ _ _ "[]"] fences.simps [of "[]"])
    next
      case (Cons x xs)
      then show ?thesis using None fa "1.IH" [rule_format, of xs "g @ [x]"]
        by (simp add: finditer.simps [of _ _ _ "x # xs"] fences.simps [of "x # xs"])
    qed
  next
    case (Some a)
    obtain t c where a: "a = (t, c)" by (cases a)
    have fa: "fence_at s = Some (or_empty (group c 1), or_empty (group c 2), t)"
      using mh Some a by simp
    have lt: "length t < length s" using fa by (rule fence_at_shorter)
    show ?thesis using Some a fa lt "1.IH" [rule_format, OF lt, of "[]"]
      by (auto simp add: finditer.simps [of _ _ _ s] fences.simps [of s] split: prod.splits)
  qed
qed

lemma findall_code_fences: "findall2 True code_pattern s = fences s"
  using finditer_code_fences [of "[]" s] by (simp add: findall2_def)

section \<open>What \<^verbatim>\<open>format_message\<close> returns\<close>

lemma ungroup_split_code: "ungroup split_pattern = ungroup code_pattern"
  by (simp add: split_pattern_def code_pattern_def plus_def)

lemma match_here_split_code:
  "map_option fst (match_here True split_pattern s) = map_option fst (match_here True code_pattern s)"
  using match_here_ungroup [of True split_pattern s] match_here_ungroup [of True code_pattern s]
  by (simp add: ungroup_split_code)

lemma split_matches_length:
  "length (fst (finditer True split_pattern [] s)) = length (fences s)"
proof -
  have "map (\<lambda>(gap, m, c). (gap, m)) (fst (finditer True split_pattern [] s))
      = map (\<lambda>(gap, m, c). (gap, m)) (fst (finditer True code_pattern [] s))"
    using finditer_same_rests [of True split_pattern code_pattern "[]" s] match_here_split_code
    by simp
  then have "length (fst (finditer True split_pattern [] s)) = length (fst (finditer True code_pattern [] s))"
    by (rule map_eq_imp_length_eq)
  also have "\<dots> = length (fences s)"
    using arg_cong [OF finditer_code_fences [of "[]" s], of length] by simp
  finally show ?thesis .
qed

lemma fm_dataframes:
  "snd (snd (format_message m)) =
     concat (replicate (Suc (length (fences m))) (df_loop (findall2 False df_pattern m) []))"
proof -
  obtain ms rest where f: "finditer True split_pattern [] m = (ms, rest)"
    by (cases "finditer True split_pattern [] m")
  have l: "length ms = length (fences m)" using split_matches_length [of m] f by simp
  show ?thesis
    by (simp add: format_message_def Let_def re_split_def f parts_loop_dataframes
          even_parts_interleave l)
qed

lemma fm_snippets:
  "fst (snd (format_message m)) =
     map (\<lambda>(language, code). (strip code, if language \<noteq> [] then lower language else ''plaintext''))
         (fences m)"
proof -
  obtain ms rest where f: "finditer True split_pattern [] m = (ms, rest)"
    by (cases "finditer True split_pattern [] m")
  have l: "length ms = length (fences m)" using split_matches_length [of m] f by simp
  define st0 where "st0 = \<lparr>formatted_html = [], code_snippets = [], dataframes = [], code_index = 0\<rparr>"
  have pre: "code_index st0 + odd_parts 0 (interleave ms rest) \<le> length (fences m)"
    by (simp add: st0_def odd_parts_interleave l)
  have "code_snippets (parts_loop (fences m) (findall2 False df_pattern m) 0 (interleave ms rest) st0)
      = code_snippets st0
        @ map (\<lambda>(language, code). (strip code, if language \<noteq> [] then lower language else ''plaintext''))
            (take (odd_parts 0 (interleave ms rest)) (drop (code_index st0) (fences m)))"
    using parts_loop_snippets [OF pre] by simp
  then show ?thesis
    by (simp add: format_message_def Let_def re_split_def f findall_code_fences st0_def
          odd_parts_interleave l)
qed









section \<open>The example messages, evaluated\<close>

lemmas rx_eval =
  run.simps finditer.simps match_here_def findall2_def re_split_def re_sub_empty_def
  plus_def consumed_def group_def or_empty_def isspace_def isword_def Let_def

lemmas fence_eval =
  fences.simps line_fences.simps fence_at_def BTS_def isword_def Let_def

lemmas table_eval =
  cells_def strip_def lstrip_def rstrip_def isspace_def startswith_def Let_def

lemma fences_msg_table_fence: "fences msg_table_fence = [([], ''x'' @ [NL])]"
  by (simp add: msg_table_fence_def fence_eval)

lemma matches_msg_table_fence: "findall2 False df_pattern msg_table_fence = [(''A | B'', ''| 1 | 2 |'' @ [NL])]"
  by (simp add: msg_table_fence_def BTS_def rx_eval df_pattern_def)

lemma tables_msg_table_fence:
  "fm_tables msg_table_fence = [\<lparr>headers = [''A'', ''B''], rows = [[''1'', ''2'']]\<rparr>,
                   \<lparr>headers = [''A'', ''B''], rows = [[''1'', ''2'']]\<rparr>]"
  by (simp add: fm_tables_def fm_dataframes fences_msg_table_fence matches_msg_table_fence table_eval)

lemma fences_msg_mixed_separator: "fences msg_mixed_separator = []"
  by (simp add: msg_mixed_separator_def fence_eval)

lemma matches_msg_mixed_separator: "findall2 False df_pattern msg_mixed_separator = [(''A | B'', ''|---|:---|'' @ [NL] @ ''| 1 | 2 |'')]"
  by (simp add: msg_mixed_separator_def rx_eval df_pattern_def)

lemma tables_msg_mixed_separator:
  "fm_tables msg_mixed_separator = [\<lparr>headers = [''A'', ''B''], rows = [[''---'', '':---''], [''1'', ''2'']]\<rparr>]"
  by (simp add: fm_tables_def fm_dataframes fences_msg_mixed_separator matches_msg_mixed_separator table_eval)

lemma fences_msg_empty_headers: "fences msg_empty_headers = []"
  by (simp add: msg_empty_headers_def fence_eval)

lemma matches_msg_empty_headers: "findall2 False df_pattern msg_empty_headers = [([], ''||'' @ [NL] @ ''||'')]"
  by (simp add: msg_empty_headers_def rx_eval df_pattern_def)

lemma tables_msg_empty_headers: "fm_tables msg_empty_headers = [\<lparr>headers = [], rows = [[]]\<rparr>]"
  by (simp add: fm_tables_def fm_dataframes fences_msg_empty_headers matches_msg_empty_headers table_eval)

lemma fences_msg_inline_fence: "fences msg_inline_fence = [([], ''x'' @ [NL])]"
  by (simp add: msg_inline_fence_def fence_eval)

lemma line_fences_msg_inline_fence: "line_fences True msg_inline_fence = []"
  by (simp add: msg_inline_fence_def fence_eval)

lemma fences_msg_arity: "fences msg_arity = []"
  by (simp add: msg_arity_def fence_eval)

lemma matches_msg_arity:
  "findall2 False df_pattern msg_arity = [(''A | B'', ''| 1 | 2 | 3 |'' @ [NL] @ ''| 4 | 5 |'')]"
  by (simp add: msg_arity_def rx_eval df_pattern_def)

lemma tables_msg_arity: "fm_tables msg_arity = [\<lparr>headers = [''A'', ''B''], rows = [[''4'', ''5'']]\<rparr>]"
  by (simp add: fm_tables_def fm_dataframes fences_msg_arity matches_msg_arity table_eval)

lemma fences_msg_two_fences: "fences msg_two_fences = [(''Py'', ''x=1'' @ [NL]), ([], ''y'' @ [NL])]"
  by (simp add: msg_two_fences_def fence_eval)

lemma fences_msg_colon_row: "fences msg_colon_row = []"
  by (simp add: msg_colon_row_def fence_eval)

lemma matches_msg_colon_row:
  "findall2 False df_pattern msg_colon_row = [(''A | B'', ''|:alpha|:beta|'' @ [NL] @ ''| 1 | 2 |'')]"
  by (simp add: msg_colon_row_def rx_eval df_pattern_def)

lemma lower_Py: "lower ''Py'' = ''py''"
  by code_simp

section \<open>The tables and the code snippets\<close>

lemma split_not_Nil: "split sep s \<noteq> []"
  by (induction s) (auto simp: Let_def)

lemma row_loop_subset: "set (row_loop hs idx ls []) \<subseteq> cells ` set ls"
proof (cases idx)
  case 0
  show ?thesis
  proof (cases ls)
    case Nil
    then show ?thesis by simp
  next
    case (Cons l ls')
    show ?thesis unfolding 0 Cons row_loop_first by auto
  qed
next
  case (Suc i)
  show ?thesis unfolding Suc row_loop_later by auto
qed

lemma fm_tables_set: "set (fm_tables m) = set (df_loop (findall2 False df_pattern m) [])"
  by (auto simp: fm_tables_def fm_dataframes)

lemma df_loop_single:
  "df_loop [(header, rws)] [] =
     (let hs = cells header; data = row_loop hs 0 (split NL (strip rws)) []
      in if data \<noteq> [] then [\<lparr>headers = hs, rows = data\<rparr>] else [])"
  using df_loop_Cons [of header rws "[]"] by simp

lemma df_loop_concat: "df_loop ms [] = concat (map (\<lambda>hr. df_loop [hr] []) ms)"
proof (induction ms)
  case Nil
  show ?case by simp
next
  case (Cons hr ms)
  obtain header rws where hr: "hr = (header, rws)" by (cases hr)
  show ?case unfolding hr
    using df_loop_Cons [of header rws ms] df_loop_single [of header rws] Cons.IH by simp
qed

lemma fm_tables_matches:
  "fm_tables m = concat (replicate (Suc (length (fences m)))
                   (concat (map (\<lambda>hr. df_loop [hr] []) (findall2 False df_pattern m))))"
  using df_loop_concat [of "findall2 False df_pattern m"] by (simp add: fm_tables_def fm_dataframes)

text \<open>
  Claim C6.  In every table that \<^verbatim>\<open>format_message\<close> returns, every row has as many cells as
  there are headers.  A candidate row with another number of cells is dropped: each row
  kept is the whole cell list of one candidate line of the match the table comes from,
  never a part of it.  A table that keeps no row is not returned: the rows of a returned
  table are not empty.
\<close>

theorem table_rows_match_headers:
  "\<forall>tb \<in> set (fm_tables m).
      rows tb \<noteq> []
      \<and> (\<forall>r \<in> set (rows tb). length r = length (headers tb))
      \<and> (\<exists>(header, rws) \<in> set (findall2 False df_pattern m).
            headers tb = cells header \<and> set (rows tb) \<subseteq> cells ` set (split NL (strip rws)))"
proof
  fix tb
  assume "tb \<in> set (fm_tables m)"
  then have "tb \<in> set (df_loop (findall2 False df_pattern m) [])" by (simp add: fm_tables_set)
  then obtain header rws where mem: "(header, rws) \<in> set (findall2 False df_pattern m)"
    and tb: "tb = \<lparr>headers = cells header, rows = row_loop (cells header) 0 (split NL (strip rws)) []\<rparr>"
    and ne: "rows tb \<noteq> []"
    unfolding df_loop_member by auto
  have len: "\<forall>r \<in> set (rows tb). length r = length (headers tb)"
    using row_loop_lengths by (simp add: tb)
  have "set (rows tb) \<subseteq> cells ` set (split NL (strip rws))"
    using row_loop_subset by (simp add: tb)
  then have "\<exists>(header, rws) \<in> set (findall2 False df_pattern m).
            headers tb = cells header \<and> set (rows tb) \<subseteq> cells ` set (split NL (strip rws))"
    using mem tb by force
  then show "rows tb \<noteq> []
      \<and> (\<forall>r \<in> set (rows tb). length r = length (headers tb))
      \<and> (\<exists>(header, rws) \<in> set (findall2 False df_pattern m).
            headers tb = cells header \<and> set (rows tb) \<subseteq> cells ` set (split NL (strip rws)))"
    using ne len by blast
qed

theorem table_rows_match_headers_witness:
  "\<lparr>headers = [''A'', ''B''], rows = [[''4'', ''5'']]\<rparr> \<in> set (fm_tables msg_arity)
   \<and> rows \<lparr>headers = [''A'', ''B''], rows = [[''4'', ''5'']]\<rparr> \<noteq> []
   \<and> length [''4'', ''5''] = length (headers \<lparr>headers = [''A'', ''B''], rows = [[''4'', ''5'']]\<rparr>)"
proof -
  define T where "T = \<lparr>headers = [''A'', ''B''], rows = [[''4'', ''5'']]\<rparr>"
  have mem: "T \<in> set (fm_tables msg_arity)" by (simp add: tables_msg_arity T_def)
  have r: "[''4'', ''5''] \<in> set (rows T)" by (simp add: T_def)
  note h = bspec [OF table_rows_match_headers mem]
  have a: "rows T \<noteq> []" by (rule conjunct1 [OF h])
  have b: "length [''4'', ''5''] = length (headers T)"
    by (rule bspec [OF conjunct1 [OF conjunct2 [OF h]] r])
  show ?thesis using mem a b unfolding T_def by blast
qed

text \<open>
  Claim C10.  The tables returned are the tables of the matches of the table pattern (as
  many times as the message has prose segments), and for each match whose first candidate
  line has only cells that start with a colon, whatever follows the colon and also when
  the line has no cell at all, the table is built from the lines after the first only:
  that first line contributes no row.
\<close>

theorem first_row_colon_skipped:
  "fm_tables m = concat (replicate (Suc (length (fences m)))
                   (concat (map (\<lambda>hr. df_loop [hr] []) (findall2 False df_pattern m))))
   \<and> (\<forall>(header, rws) \<in> set (findall2 False df_pattern m).
        (\<forall>col \<in> set (cells (hd (split NL (strip rws)))). startswith col '':'') \<longrightarrow>
        df_loop [(header, rws)] [] =
          (let data = filter (\<lambda>r. length r = length (cells header))
                        (map cells (tl (split NL (strip rws))))
           in if data \<noteq> [] then [\<lparr>headers = cells header, rows = data\<rparr>] else []))"
proof (intro conjI ballI)
  show "fm_tables m = concat (replicate (Suc (length (fences m)))
                   (concat (map (\<lambda>hr. df_loop [hr] []) (findall2 False df_pattern m))))"
    by (rule fm_tables_matches)
next
  fix hr
  assume "hr \<in> set (findall2 False df_pattern m)"
  obtain header rws where hr: "hr = (header, rws)" by (cases hr)
  obtain l ls where sp: "split NL (strip rws) = l # ls"
    using split_not_Nil [of NL "strip rws"] by (cases "split NL (strip rws)") auto
  show "case hr of (header, rws) \<Rightarrow>
        (\<forall>col \<in> set (cells (hd (split NL (strip rws)))). startswith col '':'') \<longrightarrow>
        df_loop [(header, rws)] [] =
          (let data = filter (\<lambda>r. length r = length (cells header))
                        (map cells (tl (split NL (strip rws))))
           in if data \<noteq> [] then [\<lparr>headers = cells header, rows = data\<rparr>] else [])"
    by (simp add: hr df_loop_single sp row_loop_first Let_def del: row_loop.simps df_loop.simps)
qed

theorem first_row_colon_skipped_witness:
  "(''A | B'', ''|:alpha|:beta|'' @ [NL] @ ''| 1 | 2 |'') \<in> set (findall2 False df_pattern msg_colon_row)
   \<and> list_all (\<lambda>col. startswith col '':'') ['':alpha'', '':beta'']
   \<and> df_loop [(''A | B'', ''|:alpha|:beta|'' @ [NL] @ ''| 1 | 2 |'')] []
       = [\<lparr>headers = [''A'', ''B''], rows = [[''1'', ''2'']]\<rparr>]"
proof -
  define hr where "hr = (''A | B'', ''|:alpha|:beta|'' @ [NL] @ ''| 1 | 2 |'')"
  have mem: "hr \<in> set (findall2 False df_pattern msg_colon_row)" by (simp add: matches_msg_colon_row hr_def)
  have sp: "split NL (strip (snd hr)) = [''|:alpha|:beta|'', ''| 1 | 2 |'']"
    by (simp add: hr_def table_eval)
  have c1: "cells ''|:alpha|:beta|'' = ['':alpha'', '':beta'']" by (simp add: table_eval)
  have c2: "cells ''| 1 | 2 |'' = [''1'', ''2'']" by (simp add: table_eval)
  have c3: "cells (fst hr) = [''A'', ''B'']" by (simp add: hr_def table_eval)
  have colon: "\<forall>col \<in> set (cells (hd (split NL (strip (snd hr))))). startswith col '':''"
    by (simp add: sp c1 startswith_def)
  note h = bspec [OF conjunct2 [OF first_row_colon_skipped [of msg_colon_row]] mem]
  have "(\<forall>col \<in> set (cells (hd (split NL (strip (snd hr))))). startswith col '':'') \<longrightarrow>
        df_loop [hr] [] =
          (let data = filter (\<lambda>r. length r = length (cells (fst hr)))
                        (map cells (tl (split NL (strip (snd hr)))))
           in if data \<noteq> [] then [\<lparr>headers = cells (fst hr), rows = data\<rparr>] else [])"
    using h by (simp add: case_prod_unfold del: row_loop.simps df_loop.simps)
  then have "df_loop [hr] [] =
          (let data = filter (\<lambda>r. length r = length (cells (fst hr)))
                        (map cells (tl (split NL (strip (snd hr)))))
           in if data \<noteq> [] then [\<lparr>headers = cells (fst hr), rows = data\<rparr>] else [])"
    using colon by (rule mp)
  then have d: "df_loop [hr] [] = [\<lparr>headers = [''A'', ''B''], rows = [[''1'', ''2'']]\<rparr>]"
    by (simp add: sp c2 c3 del: row_loop.simps df_loop.simps)
  have la: "list_all (\<lambda>col. startswith col '':'') ['':alpha'', '':beta'']"
    by (simp add: startswith_def)
  show ?thesis using mem d la unfolding hr_def by blast
qed

text \<open>
  Claim C3, as stated: no table without header cells is ever returned.  On three lines of
  two pipes each the header line has no cell, the second line is skipped as a first row
  without cells, and the third line has as many cells as the header, namely none: a
  table with no header and one empty row is returned.
\<close>

theorem empty_headers_counterexample: "fm_tables msg_empty_headers = [\<lparr>headers = [], rows = [[]]\<rparr>]"
  by (rule tables_msg_empty_headers)

text \<open>
  Claim C3, amended.  A table returned without header cells has only rows without cells,
  and at least one; and a match whose header line has no cell gives no table exactly
  when every candidate line after the first has a cell.
\<close>

theorem empty_header_tables:
  "(\<forall>tb \<in> set (fm_tables m). headers tb = [] \<longrightarrow> rows tb \<noteq> [] \<and> (\<forall>r \<in> set (rows tb). r = []))
   \<and> (\<forall>(header, rws) \<in> set (findall2 False df_pattern m).
        cells header = [] \<longrightarrow>
        (df_loop [(header, rws)] [] = []) = (\<forall>l \<in> set (tl (split NL (strip rws))). cells l \<noteq> []))"
proof (intro conjI ballI impI)
  fix tb
  assume "tb \<in> set (fm_tables m)" and h: "headers tb = []"
  then have "tb \<in> set (df_loop (findall2 False df_pattern m) [])" by (simp add: fm_tables_set)
  then obtain header rws where
    tb: "tb = \<lparr>headers = cells header, rows = row_loop (cells header) 0 (split NL (strip rws)) []\<rparr>"
    and ne: "rows tb \<noteq> []"
    unfolding df_loop_member by auto
  show "rows tb \<noteq> []" by (rule ne)
  fix r
  assume "r \<in> set (rows tb)"
  then have "length r = length (headers tb)" using row_loop_lengths by (simp add: tb)
  then show "r = []" using h by simp
next
  fix hr
  assume "hr \<in> set (findall2 False df_pattern m)"
  obtain header rws where hr: "hr = (header, rws)" by (cases hr)
  obtain l ls where sp: "split NL (strip rws) = l # ls"
    using split_not_Nil [of NL "strip rws"] by (cases "split NL (strip rws)") auto
  show "case hr of (header, rws) \<Rightarrow>
        cells header = [] \<longrightarrow>
        (df_loop [(header, rws)] [] = []) = (\<forall>l \<in> set (tl (split NL (strip rws))). cells l \<noteq> [])"
    by (auto simp add: hr df_loop_single sp row_loop_first Let_def filter_empty_conv
          simp del: row_loop.simps df_loop.simps)
qed

theorem empty_header_tables_witness:
  "\<lparr>headers = [], rows = [[]]\<rparr> \<in> set (fm_tables msg_empty_headers)
   \<and> headers \<lparr>headers = [], rows = [[]] :: string list list\<rparr> = ([] :: string list)
   \<and> rows \<lparr>headers = [] :: string list, rows = [[]]\<rparr> \<noteq> ([] :: string list list)"
proof -
  define T where "T = \<lparr>headers = [] :: string list, rows = [[]] :: string list list\<rparr>"
  have mem: "T \<in> set (fm_tables msg_empty_headers)" by (simp add: tables_msg_empty_headers T_def)
  have hd: "headers T = []" by (simp add: T_def)
  note h = mp [OF bspec [OF conjunct1 [OF empty_header_tables [of msg_empty_headers]] mem] hd]
  have a: "rows T \<noteq> []" by (rule conjunct1 [OF h])
  show ?thesis using mem hd a unfolding T_def by blast
qed

text \<open>
  Claim C7.  There is one snippet for each fenced region of the message, in order, and its
  language is the lower-case form of the region's language token when the token is
  present, and \<^verbatim>\<open>plaintext\<close> when it is absent.
\<close>

theorem snippet_language:
  "length (fm_code m) = length (fences m)
   \<and> (\<forall>i < length (fences m).
        snd (fm_code m ! i) =
          (if fst (fences m ! i) = [] then ''plaintext'' else lower (fst (fences m ! i))))"
  by (auto simp: fm_code_def fm_snippets split: prod.splits)

theorem snippet_language_witness:
  "fences msg_two_fences = [(''Py'', ''x=1'' @ [NL]), ([], ''y'' @ [NL])]
   \<and> length (fm_code msg_two_fences) = 2
   \<and> snd (fm_code msg_two_fences ! 0) = ''py''
   \<and> snd (fm_code msg_two_fences ! 1) = ''plaintext''"
proof -
  note h = snippet_language [of msg_two_fences]
  have l: "length (fm_code msg_two_fences) = 2" using conjunct1 [OF h] by (simp add: fences_msg_two_fences)
  have a: "snd (fm_code msg_two_fences ! 0) = ''py''"
    using conjunct2 [OF h, rule_format, of 0] by (simp add: fences_msg_two_fences lower_Py)
  have b: "snd (fm_code msg_two_fences ! 1) = ''plaintext''"
    using conjunct2 [OF h, rule_format, of 1] by (simp add: fences_msg_two_fences)
  show ?thesis using fences_msg_two_fences l a b by blast
qed

text \<open>
  Claim C4, as stated: a snippet is extracted exactly for each region that a line starting
  with three backticks opens.  In the message \<^verbatim>\<open>a```\<close>, newline, \<^verbatim>\<open>x\<close>, newline,
  \<^verbatim>\<open>```\<close> the fence opens after the letter \<^verbatim>\<open>a\<close>, so no line that starts with three
  backticks opens a region that is closed, and yet \<^verbatim>\<open>format_message\<close> returns the snippet
  \<^verbatim>\<open>x\<close>.
\<close>

theorem fence_line_start_counterexample:
  "fm_code msg_inline_fence = [(''x'', ''plaintext'')] \<and> map snippet_of (line_fences True msg_inline_fence) = []"
  by (simp add: fm_code_def fm_snippets fences_msg_inline_fence line_fences_msg_inline_fence table_eval)

text \<open>
  Claim C4, amended.  The snippets are exactly those of the regions found when the message
  is scanned from left to right for three backticks anywhere in a line, followed at once
  by an optional token of word characters and a newline, and closed by the nearest
  following three backticks, the scan resuming after the closing backticks: several
  fenced blocks give separate snippets in the order of the text.
\<close>

theorem snippets_are_fences: "fm_code m = map snippet_of (fences m)"
  by (simp add: fm_code_def fm_snippets snippet_of_def case_prod_unfold)

theorem snippets_are_fences_witness:
  "fm_code msg_two_fences = [(''x=1'', ''py''), (''y'', ''plaintext'')]"
proof -
  have "fm_code msg_two_fences = map snippet_of [(''Py'', ''x=1'' @ [NL]), ([], ''y'' @ [NL])]"
    using snippets_are_fences [of msg_two_fences] by (simp only: fences_msg_two_fences)
  then show ?thesis by (simp add: snippet_of_def lower_Py table_eval)
qed



text \<open>
  Claim C1.  The loop over the table matches runs once for each prose segment of the
  message.  On a table followed by one fenced block the message splits into two prose
  segments, and the one table of the message is returned twice.
\<close>

theorem tables_repeated_per_prose_segment:
  "fm_tables msg_table_fence = [\<lparr>headers = [''A'', ''B''], rows = [[''1'', ''2'']]\<rparr>,
                   \<lparr>headers = [''A'', ''B''], rows = [[''1'', ''2'']]\<rparr>]"
  by (rule tables_msg_table_fence)

theorem tables_repeated_per_prose_segment_witness: "length (fm_tables msg_table_fence) = 2"
  using tables_repeated_per_prose_segment by simp

text \<open>
  Claim C2.  An alignment row with a plain cell and a colon cell, \<^verbatim>\<open>|---|:---|\<close>, is
  not matched by the separator part of the pattern (the class has no colon) and is not
  skipped as a first row (not every cell starts with a colon): it is returned as the
  first data row.
\<close>

theorem separator_row_kept:
  "fm_tables msg_mixed_separator = [\<lparr>headers = [''A'', ''B''], rows = [[''---'', '':---''], [''1'', ''2'']]\<rparr>]
   \<and> separator_row [''---'', '':---'']"
  by (simp add: tables_msg_mixed_separator separator_row_def startswith_def)

theorem separator_row_kept_witness:
  "[''---'', '':---''] \<in> set (rows (hd (fm_tables msg_mixed_separator)))"
  using separator_row_kept by simp

section \<open>The timestamp labels\<close>

lemmas strptime_eval =
  run.simps strptime_def match_here_def fmt_date_def fmt_datetime_def dir_Y_def dir_m_def dir_d_def
  dir_H_def dir_M_def dir_S_def plus_def isspace_def isword_def isdigit_def consumed_def
  group_def int_of_field_def or_empty_def days_in_month_def is_leap_def ymd2ord_def
  days_before_year_def days_before_month_def

lemma bucket_days_ago:
  assumes "30 < today" and "today \<le> MAXORDINAL" and "0 \<le> k" and "dt_date t = today - k"
  shows "bucket today t =
     Inr (if k = 0 then ''Today''
          else if k = 1 then ''Yesterday''
          else if k \<le> 7 then ''Previous 7 days''
          else if k \<le> 30 then ''Previous 30 days''
          else strftime_Ymd t)"
  using assms by (auto simp: bucket_def bind_def date_sub_def Let_def)

text \<open>
  The buckets: for a timestamp that parses, the label is decided by the number \<open>k\<close> of days
  between its calendar date and today, with the boundaries at one, seven and thirty days.
  \<open>today\<close> is a date from which thirty days can be subtracted.
\<close>

lemma label_days_ago:
  assumes "parse_timestamp timestamp = Some t" and "dt_date t = today - k" and "0 \<le> k"
    and "30 < today" and "today \<le> MAXORDINAL"
  shows "format_timestamp_label today timestamp =
     Inr (if k = 0 then ''Today''
          else if k = 1 then ''Yesterday''
          else if k \<le> 7 then ''Previous 7 days''
          else if k \<le> 30 then ''Previous 30 days''
          else strftime_Ymd t)"
  using assms by (simp add: format_timestamp_label_def bucket_days_ago)

text \<open>From the year 1000 on the numeral of the year has four digits and the label is the ISO form.\<close>

lemma decimal_four_digits:
  assumes "1000 \<le> y" and "y < 10000"
  shows "decimal y = [digit_char (y div 1000), digit_char (y div 100), digit_char (y div 10), digit_char y]"
proof -
  have g: "10 \<le> y" "10 \<le> y div 10" "10 \<le> y div 100" "y div 1000 < 10"
    using assms by simp_all
  have e: "y div 10 div 10 = y div 100" "y div 100 div 10 = y div 1000"
    by (simp_all add: div_mult2_eq [symmetric])
  have a: "decimal y = decimal (y div 10) @ [digit_char y]"
    using g(1) by (subst decimal.simps) simp
  have b: "decimal (y div 10) = decimal (y div 100) @ [digit_char (y div 10)]"
    using g(2) by (subst decimal.simps) (simp add: e)
  have c: "decimal (y div 100) = decimal (y div 1000) @ [digit_char (y div 100)]"
    using g(3) by (subst decimal.simps) (simp add: e)
  have d: "decimal (y div 1000) = [digit_char (y div 1000)]"
    using g(4) by (subst decimal.simps) simp
  show ?thesis by (simp add: a b c d)
qed

lemma strftime_isoformat:
  assumes "ord2ymd (dt_date t) = (y, m, d)" and "1000 \<le> y" and "y < 10000"
  shows "strftime_Ymd t = isoformat y m d"
  using assms by (simp add: strftime_Ymd_def isoformat_def decimal_four_digits)

lemma parse_2024_04_16:
  "parse_timestamp (Str ''2024-04-16'')
     = Some \<lparr>dt_date = 738992, dt_hour = 0, dt_minute = 0, dt_second = 0\<rparr>"
  by (simp add: parse_timestamp_def strptime_eval)

lemma parse_2024_03_24:
  "parse_timestamp (Str ''2024-03-24 23:59:59'')
     = Some \<lparr>dt_date = 738969, dt_hour = 23, dt_minute = 59, dt_second = 59\<rparr>"
  by (simp add: parse_timestamp_def strptime_eval)


lemma ord2ymd_738969: "ord2ymd 738969 = (2024, 3, 24)"
  by (simp add: ord2ymd_def Let_def)


lemma label_2024_04_16:
  "format_timestamp_label 739000 (Str ''2024-04-16'') = Inr ''Previous 30 days''"
  using label_days_ago [OF parse_2024_04_16, of 739000 8] by (simp add: MAXORDINAL_def)

lemma label_2024_03_24:
  "format_timestamp_label 739000 (Str ''2024-03-24 23:59:59'') = Inr ''2024-03-24''"
proof -
  have "strftime_Ymd \<lparr>dt_date = 738969, dt_hour = 23, dt_minute = 59, dt_second = 59\<rparr>
          = isoformat 2024 3 24"
    by (rule strftime_isoformat) (simp_all add: ord2ymd_738969)
  then show ?thesis
    using label_days_ago [OF parse_2024_03_24, of 739000 31]
    by (simp add: MAXORDINAL_def isoformat_def digit_char_def)
qed




text \<open>
  Claim C8.  A string that parses under neither \<^verbatim>\<open>%Y-%m-%d %H:%M:%S\<close> nor \<^verbatim>\<open>%Y-%m-%d\<close>, and
  an argument that is neither a string nor a \<^verbatim>\<open>datetime\<close>, give the value
  \<^verbatim>\<open>Invalid timestamp\<close>: a returned string, not an exception.
\<close>

theorem invalid_timestamp_sentinel:
  "(strptime s fmt_datetime = None \<and> strptime s fmt_date = None
      \<longrightarrow> format_timestamp_label today (Str s) = Inr ''Invalid timestamp'')
   \<and> format_timestamp_label today Other = Inr ''Invalid timestamp''"
  by (simp add: format_timestamp_label_def parse_timestamp_def)

lemma not_a_date_1: "strptime ''not-a-date'' fmt_datetime = None"
  by (simp add: strptime_eval)

lemma not_a_date_2: "strptime ''not-a-date'' fmt_date = None"
  by (simp add: strptime_eval)

theorem invalid_timestamp_sentinel_witness:
  "strptime ''not-a-date'' fmt_datetime = None \<and> strptime ''not-a-date'' fmt_date = None
   \<and> format_timestamp_label 739000 (Str ''not-a-date'') = Inr ''Invalid timestamp''"
  using invalid_timestamp_sentinel [of "''not-a-date''" 739000] not_a_date_1 not_a_date_2
  by simp

end
